theory Spec2Isabelle
  imports Complex_Main "HOL-Library.Word"
begin

unbundle bit_operations_syntax

section \<open>Delimiter scanners (simd\_utils.cpp)\<close>

text \<open>
  A \<^verbatim>\<open>std::string_view\<close> is a \<^typ>\<open>string\<close> (a list of bytes), \<^verbatim>\<open>data.size()\<close> is
  \<^const>\<open>length\<close>, and a \<^verbatim>\<open>std::vector\<close> of \<^verbatim>\<open>size_t\<close> offsets is a \<^typ>\<open>nat list\<close>
  that \<^verbatim>\<open>push_back\<close> extends at the end. Offsets are natural numbers: every offset the
  scanners compute is below the length of the buffer, so the 64-bit \<^verbatim>\<open>size_t\<close> never wraps.
\<close>

text \<open>
  \<^verbatim>\<open>for (size_t i = 0; i < data.size(); ++i) if (data[i] == delimiter) positions.push_back(i);\<close>
  The same loop, started at \<^verbatim>\<open>pos\<close>, handles the remainder in \<^verbatim>\<open>find_delimiters_simd\<close>.
\<close>

function scalar_loop :: "string \<Rightarrow> char \<Rightarrow> nat \<Rightarrow> nat list \<Rightarrow> nat list" where
  "scalar_loop data delimiter i positions =
     (if i < length data
      then scalar_loop data delimiter (i + 1)
             (if data ! i = delimiter then positions @ [i] else positions)
      else positions)"
  by pat_completeness auto
termination
  by (relation "measure (\<lambda>(data, delimiter, i, positions). length data - i)") auto

definition find_delimiters_scalar :: "string \<Rightarrow> char \<Rightarrow> nat list" where
  "find_delimiters_scalar data delimiter = scalar_loop data delimiter 0 []"

definition SIMD_WIDTH :: nat where
  "SIMD_WIDTH = 64"

text \<open>
  The three AVX-512 intrinsics, by their instruction semantics: the unaligned load reads the
  64 bytes at \<^verbatim>\<open>ptr + pos\<close>; the byte-wise comparison with the broadcast delimiter gives a
  64-bit mask whose bit \<open>k\<close> is set when byte \<open>k\<close> of the vector equals the delimiter;
  \<^verbatim>\<open>__builtin_ctzll\<close> counts the zero bits below the lowest set bit.
\<close>

definition mm512_loadu_si512 :: "string \<Rightarrow> nat \<Rightarrow> string" where
  "mm512_loadu_si512 data pos = take SIMD_WIDTH (drop pos data)"

definition mm512_cmpeq_epi8_mask :: "string \<Rightarrow> char \<Rightarrow> 64 word" where
  "mm512_cmpeq_epi8_mask data_vec delimiter =
     horner_sum of_bool 2 (map (\<lambda>c. c = delimiter) data_vec)"

definition ctzll :: "64 word \<Rightarrow> nat" where
  "ctzll match_mask = length (takeWhile (\<lambda>k. \<not> bit match_mask k) [0..<64])"

text \<open>
  \<^verbatim>\<open>while (match_mask != 0) { positions.push_back(pos + ctzll(match_mask));
  match_mask &= (match_mask - 1); }\<close>
\<close>

function extract_positions :: "nat \<Rightarrow> 64 word \<Rightarrow> nat list \<Rightarrow> nat list" where
  "extract_positions pos match_mask positions =
     (if match_mask \<noteq> 0
      then extract_positions pos (match_mask AND (match_mask - 1))
             (positions @ [pos + ctzll match_mask])
      else positions)"
  by pat_completeness auto
termination
proof (relation "measure (\<lambda>(pos, match_mask, positions). unat match_mask)")
  show "wf (measure (\<lambda>(pos, match_mask, positions). unat match_mask))"
    by simp
next
  fix pos :: nat and match_mask :: "64 word" and positions :: "nat list"
  assume "match_mask \<noteq> 0"
  then have "unat (match_mask AND (match_mask - 1)) < unat match_mask"
    using less_eq_dec_iff unat_mono word_and_le1 by blast
  then show "((pos, match_mask AND match_mask - 1, positions @ [pos + ctzll match_mask]),
               (pos, match_mask, positions))
             \<in> measure (\<lambda>(pos, match_mask, positions). unat match_mask)"
    by simp
qed

text \<open>\<^verbatim>\<open>for (; pos < simd_end; pos += SIMD_WIDTH)\<close>, returning the final \<^verbatim>\<open>pos\<close> as well.\<close>

function simd_loop :: "string \<Rightarrow> char \<Rightarrow> nat \<Rightarrow> nat \<Rightarrow> nat list \<Rightarrow> nat \<times> nat list" where
  "simd_loop data delimiter pos simd_end positions =
     (if pos < simd_end
      then simd_loop data delimiter (pos + SIMD_WIDTH) simd_end
             (extract_positions pos
                (mm512_cmpeq_epi8_mask (mm512_loadu_si512 data pos) delimiter) positions)
      else (pos, positions))"
  by pat_completeness auto
termination
  by (relation "measure (\<lambda>(data, delimiter, pos, simd_end, positions). simd_end - pos)")
     (auto simp: SIMD_WIDTH_def)

definition find_delimiters_simd :: "string \<Rightarrow> char \<Rightarrow> nat list" where
  "find_delimiters_simd data delimiter =
     (let size = length data;
          simd_end = size - (size mod SIMD_WIDTH);
          (pos, positions) = simd_loop data delimiter 0 simd_end []
      in scalar_loop data delimiter pos positions)"

section \<open>Numeric converters (simd\_utils.cpp)\<close>

text \<open>
  \<^verbatim>\<open>int32_t\<close> and \<^verbatim>\<open>uint32_t\<close> are 32-bit words; \<^const>\<open>sint\<close> reads the signed value and the
  conversion between the two keeps the bits. \<^verbatim>\<open>str[i] >= '0' && str[i] <= '9'\<close> is
  \<open>is_digit\<close>, \<^verbatim>\<open>str[i] - '0'\<close> is \<open>digit_value\<close>.
\<close>

type_synonym int32_t = "32 word"
type_synonym uint32_t = "32 word"

definition is_digit :: "char \<Rightarrow> bool" where
  "is_digit c \<longleftrightarrow> (48 :: nat) \<le> of_char c \<and> (of_char c :: nat) \<le> 57"

definition digit_value :: "char \<Rightarrow> nat" where
  "digit_value c = of_char c - 48"

text \<open>
  \<^verbatim>\<open>std::from_chars(first, last, result)\<close> for \<^verbatim>\<open>int32_t\<close> in base 10 is the C++17
  library function, modelled by its standard contract: the pattern is an optional minus sign
  followed by a non-empty run of decimal digits (no plus sign, no leading white space);
  without a match the error is \<^verbatim>\<open>invalid_argument\<close>, with a match whose value does not fit
  the type it is \<^verbatim>\<open>result_out_of_range\<close>, and in both cases \<^verbatim>\<open>result\<close> is left unchanged;
  otherwise the value is stored and the error code is the default \<^verbatim>\<open>std::errc()\<close>.
\<close>

datatype errc = errc_none | invalid_argument | result_out_of_range

definition decimal_value :: "string \<Rightarrow> int" where
  "decimal_value digits = foldl (\<lambda>v c. v * 10 + int (digit_value c)) 0 digits"

definition from_chars_int32 :: "string \<Rightarrow> int32_t \<Rightarrow> errc \<times> int32_t" where
  "from_chars_int32 str result =
     (let minus = (str \<noteq> [] \<and> hd str = CHR ''-'');
          digits = takeWhile is_digit (if minus then tl str else str);
          v = (if minus then - decimal_value digits else decimal_value digits)
      in if digits = [] then (invalid_argument, result)
         else if v < - (2 ^ 31) \<or> 2 ^ 31 - 1 < v then (result_out_of_range, result)
         else (errc_none, word_of_int v))"

text \<open>
  The fallback loop of \<^verbatim>\<open>parse_int\<close>:
  \<^verbatim>\<open>for (; i < str.size(); ++i) if (digit) result = result * 10 + (str[i] - '0'); else break;\<close>
  The accumulation is 32-bit arithmetic; where the signed value would overflow (undefined
  in C++) the model wraps around.
\<close>

function parse_int_loop :: "string \<Rightarrow> nat \<Rightarrow> int32_t \<Rightarrow> int32_t" where
  "parse_int_loop str i result =
     (if i < length str
      then (if is_digit (str ! i)
            then parse_int_loop str (i + 1) (result * 10 + word_of_nat (digit_value (str ! i)))
            else result)
      else result)"
  by pat_completeness auto
termination
  by (relation "measure (\<lambda>(str, i, result). length str - i)") auto

definition parse_int :: "string \<Rightarrow> int32_t" where
  "parse_int str =
     (let (ec, result) = from_chars_int32 str 0
      in if ec = errc_none then result
         else let negative = (str \<noteq> [] \<and> str ! 0 = CHR ''-'');
                  i = (if negative then 1 else 0);
                  result = parse_int_loop str i 0
              in if negative then - result else result)"

text \<open>
  \<^verbatim>\<open>double\<close> is modelled by \<^typ>\<open>real\<close>: the model performs the operations of the code in the
  same order on exact numbers and does not model rounding. The conversion
  \<^verbatim>\<open>std::from_chars\<close> for \<^verbatim>\<open>double\<close> is compiled in only under \<^verbatim>\<open>#ifdef __cpp_lib_to_chars\<close>
  and is a library function, so it is a parameter of the model: \<open>from_chars_double str\<close>
  is \<open>Some result\<close> when the call is compiled in and reports \<^verbatim>\<open>ec == std::errc()\<close>, and
  \<open>None\<close> when it reports an error or is not compiled in at all. \<open>no_from_chars_double\<close>
  is the build without it.
\<close>

type_synonym from_chars_double = "string \<Rightarrow> real option"

definition no_from_chars_double :: from_chars_double where
  "no_from_chars_double str = None"

text \<open>
  \<^verbatim>\<open>for (; i < str.size() && str[i] != '.'; ++i) if (digit) integer_part = integer_part * 10.0 + (str[i] - '0');\<close>
  This loop has no \<^verbatim>\<open>break\<close>: a byte that is neither a digit nor the point is stepped over.
\<close>

function integer_part_loop :: "string \<Rightarrow> nat \<Rightarrow> real \<Rightarrow> nat \<times> real" where
  "integer_part_loop str i integer_part =
     (if i < length str \<and> str ! i \<noteq> CHR ''.''
      then integer_part_loop str (i + 1)
             (if is_digit (str ! i) then integer_part * 10 + real (digit_value (str ! i))
              else integer_part)
      else (i, integer_part))"
  by pat_completeness auto
termination
  by (relation "measure (\<lambda>(str, i, integer_part). length str - i)") auto

text \<open>
  \<^verbatim>\<open>for (; i < str.size(); ++i) if (digit) { fractional_part += (str[i] - '0') / divisor;
  divisor *= 10.0; } else break;\<close>
\<close>

function fractional_part_loop :: "string \<Rightarrow> nat \<Rightarrow> real \<Rightarrow> real \<Rightarrow> real" where
  "fractional_part_loop str i fractional_part divisor =
     (if i < length str
      then (if is_digit (str ! i)
            then fractional_part_loop str (i + 1)
                   (fractional_part + real (digit_value (str ! i)) / divisor) (divisor * 10)
            else fractional_part)
      else fractional_part)"
  by pat_completeness auto
termination
  by (relation "measure (\<lambda>(str, i, fractional_part, divisor). length str - i)") auto

definition parse_double_manual :: "string \<Rightarrow> real" where
  "parse_double_manual str =
     (let negative = (str \<noteq> [] \<and> str ! 0 = CHR ''-'');
          i = (if negative then 1 else 0);
          (i, integer_part) = integer_part_loop str i 0;
          fractional_part =
            (if i < length str \<and> str ! i = CHR ''.''
             then fractional_part_loop str (i + 1) 0 10 else 0);
          result = integer_part + fractional_part
      in if negative then - result else result)"

definition parse_double :: "from_chars_double \<Rightarrow> string \<Rightarrow> real" where
  "parse_double from_chars str =
     (case from_chars str of Some result \<Rightarrow> result | None \<Rightarrow> parse_double_manual str)"

section \<open>Output record (fix\_message.hpp)\<close>

record FIXMessage =
  message_type :: string
  symbol :: string
  sender :: string
  target :: string
  side :: int32_t
  price :: real
  quantity :: int32_t
  valid :: bool

text \<open>The constructor: empty views, \<^verbatim>\<open>side(0), price(0.0), quantity(0), valid(false)\<close>.\<close>

definition FIXMessage_init :: FIXMessage where
  "FIXMessage_init =
     \<lparr>message_type = [], symbol = [], sender = [], target = [],
      side = 0, price = 0, quantity = 0, valid = False\<rparr>"

text \<open>The enumerators of \<^verbatim>\<open>FIXTag\<close> that \<^verbatim>\<open>populate_message\<close> switches on.\<close>

definition MessageType :: uint32_t where "MessageType = 35"
definition SenderCompID :: uint32_t where "SenderCompID = 49"
definition TargetCompID :: uint32_t where "TargetCompID = 56"
definition Side :: uint32_t where "Side = 54"
definition Symbol :: uint32_t where "Symbol = 55"
definition OrderQty :: uint32_t where "OrderQty = 38"
definition Price :: uint32_t where "Price = 44"

section \<open>Field splitting and record building (parser.cpp)\<close>

text \<open>\<^verbatim>\<open>field.find('=')\<close>: the offset of the first occurrence, \<open>None\<close> for \<^verbatim>\<open>npos\<close>.\<close>

definition find_char :: "string \<Rightarrow> char \<Rightarrow> nat option" where
  "find_char s c =
     (if c \<in> set s then Some (length (takeWhile (\<lambda>x. x \<noteq> c) s)) else None)"

text \<open>
  \<^verbatim>\<open>split_field\<close> returns \<^verbatim>\<open>false\<close> (\<open>None\<close>) or writes the tag and the value (\<open>Some\<close>).
  \<^verbatim>\<open>substr(0, eq_pos)\<close> and \<^verbatim>\<open>substr(eq_pos + 1)\<close> start inside the field, so they do
  not throw.
\<close>

definition split_field :: "string \<Rightarrow> (uint32_t \<times> string) option" where
  "split_field field =
     (case find_char field CHR ''='' of
        None \<Rightarrow> None
      | Some eq_pos \<Rightarrow>
          if eq_pos = 0 then None
          else Some (parse_int (take eq_pos field), drop (eq_pos + 1) field))"

definition populate_message ::
    "from_chars_double \<Rightarrow> FIXMessage \<Rightarrow> uint32_t \<Rightarrow> string \<Rightarrow> FIXMessage" where
  "populate_message from_chars msg tag val =
     (if tag = MessageType then msg\<lparr>message_type := val\<rparr>
      else if tag = Symbol then msg\<lparr>symbol := val\<rparr>
      else if tag = SenderCompID then msg\<lparr>sender := val\<rparr>
      else if tag = TargetCompID then msg\<lparr>target := val\<rparr>
      else if tag = Side then msg\<lparr>side := parse_int val\<rparr>
      else if tag = Price then msg\<lparr>price := parse_double from_chars val\<rparr>
      else if tag = OrderQty then msg\<lparr>quantity := parse_int val\<rparr>
      else msg)"

text \<open>
  The block that follows every slice in \<^verbatim>\<open>parse_scalar\<close> and \<^verbatim>\<open>parse_simd\<close>:
  \<^verbatim>\<open>if (split_field(field, tag, value)) populate_message(result, tag, value);\<close>
\<close>

definition process_field :: "from_chars_double \<Rightarrow> string \<Rightarrow> FIXMessage \<Rightarrow> FIXMessage" where
  "process_field from_chars field result =
     (case split_field field of
        Some (tag, val) \<Rightarrow> populate_message from_chars result tag val
      | None \<Rightarrow> result)"

text \<open>
  The tokenization step is written out twice in the source, identically, in
  \<^verbatim>\<open>parse_scalar\<close> and \<^verbatim>\<open>parse_simd\<close>. Here it is one function, with the action on each
  slice as the parameter \<open>emit\<close>, so that the slices it hands on can be observed:
  \<^verbatim>\<open>for (size_t delim_pos : delimiters) { if (delim_pos > start) { field =
  message.substr(start, delim_pos - start); ... } start = delim_pos + 1; }\<close>
  followed by \<^verbatim>\<open>if (start < message.size()) { field = message.substr(start); ... }\<close>.
  \<^verbatim>\<open>substr\<close> throws only when its start offset exceeds the size; both calls are guarded
  (\<open>start < delim_pos\<close>, a scanner position, and \<open>start < size\<close>), so it is \<^const>\<open>take\<close>
  after \<^const>\<open>drop\<close>.
\<close>

fun tokenize_loop ::
    "(string \<Rightarrow> 'a \<Rightarrow> 'a) \<Rightarrow> string \<Rightarrow> nat list \<Rightarrow> nat \<Rightarrow> 'a \<Rightarrow> nat \<times> 'a" where
  "tokenize_loop emit message [] start result = (start, result)"
| "tokenize_loop emit message (delim_pos # delimiters) start result =
     tokenize_loop emit message delimiters (delim_pos + 1)
       (if delim_pos > start
        then emit (take (delim_pos - start) (drop start message)) result
        else result)"

definition tokenize_last :: "(string \<Rightarrow> 'a \<Rightarrow> 'a) \<Rightarrow> string \<Rightarrow> nat \<times> 'a \<Rightarrow> 'a" where
  "tokenize_last emit message state =
     (case state of (start, result) \<Rightarrow>
        if start < length message then emit (drop start message) result else result)"

definition tokenize :: "(string \<Rightarrow> 'a \<Rightarrow> 'a) \<Rightarrow> string \<Rightarrow> nat list \<Rightarrow> 'a \<Rightarrow> 'a" where
  "tokenize emit message delimiters result =
     tokenize_last emit message (tokenize_loop emit message delimiters 0 result)"

text \<open>\<^verbatim>\<open>result.valid = !result.message_type.empty() && !result.symbol.empty();\<close>\<close>

definition validate :: "FIXMessage \<Rightarrow> FIXMessage" where
  "validate result = result\<lparr>valid := (message_type result \<noteq> [] \<and> symbol result \<noteq> [])\<rparr>"

definition parse_scalar :: "from_chars_double \<Rightarrow> string \<Rightarrow> FIXMessage" where
  "parse_scalar from_chars message =
     (if message = [] then FIXMessage_init
      else let delimiters = find_delimiters_scalar message CHR ''|''
           in validate (tokenize (process_field from_chars) message delimiters FIXMessage_init))"

definition parse_simd :: "from_chars_double \<Rightarrow> string \<Rightarrow> FIXMessage" where
  "parse_simd from_chars message =
     (if message = [] then FIXMessage_init
      else let delimiters = find_delimiters_simd message CHR ''|''
           in validate (tokenize (process_field from_chars) message delimiters FIXMessage_init))"

text \<open>The slices the tokenization step hands on, in order, for each scanner.\<close>

definition fields_scalar :: "string \<Rightarrow> string list" where
  "fields_scalar message =
     tokenize (\<lambda>field fields. fields @ [field]) message
       (find_delimiters_scalar message CHR ''|'') []"

definition fields_simd :: "string \<Rightarrow> string list" where
  "fields_simd message =
     tokenize (\<lambda>field fields. fields @ [field]) message
       (find_delimiters_simd message CHR ''|'') []"

section \<open>The specification's reading of a record, for comparison\<close>

text \<open>
  The specification describes the input as fields separated by the delimiter, each
  non-empty field split at its first \<open>=\<close> into a key and a value, the pairs applied in
  input order. \<open>split_on\<close> is the plain splitting of a text at every delimiter,
  \<open>spec_fields\<close> keeps the non-empty pieces, \<open>spec_pairs\<close> the well-formed key/value
  pairs and \<open>spec_apply\<close> applies them from the default record.
\<close>

function split_on :: "char \<Rightarrow> string \<Rightarrow> string list" where
  "split_on d s =
     (if d \<in> set s
      then takeWhile (\<lambda>c. c \<noteq> d) s # split_on d (tl (dropWhile (\<lambda>c. c \<noteq> d) s))
      else [s])"
  by pat_completeness auto
termination
proof (relation "measure (\<lambda>(d, s). length s)")
  show "wf (measure (\<lambda>(d, s). length s))"
    by simp
next
  fix d :: char and s :: string
  assume "d \<in> set s"
  then have "dropWhile (\<lambda>c. c \<noteq> d) s \<noteq> []"
    by simp
  then have "length (tl (dropWhile (\<lambda>c. c \<noteq> d) s)) < length (dropWhile (\<lambda>c. c \<noteq> d) s)"
    by simp
  also have "\<dots> \<le> length s"
    by (simp add: length_dropWhile_le)
  finally show "((d, tl (dropWhile (\<lambda>c. c \<noteq> d) s)), (d, s)) \<in> measure (\<lambda>(d, s). length s)"
    by simp
qed

definition spec_fields :: "string \<Rightarrow> string list" where
  "spec_fields message = filter (\<lambda>field. field \<noteq> []) (split_on CHR ''|'' message)"

definition spec_pairs :: "string \<Rightarrow> (uint32_t \<times> string) list" where
  "spec_pairs message = List.map_filter split_field (spec_fields message)"

definition spec_apply :: "from_chars_double \<Rightarrow> (uint32_t \<times> string) list \<Rightarrow> FIXMessage" where
  "spec_apply from_chars pairs =
     foldl (\<lambda>msg (tag, val). populate_message from_chars msg tag val) FIXMessage_init pairs"

section \<open>Auxiliary notions used in the proofs\<close>

text \<open>The offsets at which a byte occurs, ascending: what both scanners compute.\<close>

definition delimiter_offsets :: "char \<Rightarrow> string \<Rightarrow> nat list" where
  "delimiter_offsets d s = filter (\<lambda>j. s ! j = d) [0..<length s]"

section \<open>The scanners return the delimiter offsets in ascending order\<close>

text \<open>The loop equations are unfolded one step at a time, by substitution.\<close>

declare scalar_loop.simps [simp del] extract_positions.simps [simp del] simd_loop.simps [simp del]
  parse_int_loop.simps [simp del] integer_part_loop.simps [simp del]
  fractional_part_loop.simps [simp del] split_on.simps [simp del]

text \<open>Clearing the lowest set bit: \<open>n AND (n - 1)\<close> keeps exactly the set bits of \<open>n\<close>
  that have a set bit below them.\<close>

lemma nat_clear_lowest:
  "bit (n AND (n - 1)) j \<longleftrightarrow> bit n j \<and> (\<exists>i<j. bit n i)" for n :: nat
proof (induction j arbitrary: n)
  case 0
  show ?case by (cases "even n") (auto simp: bit_0 even_and_iff)
next
  case (Suc j)
  have step: "bit (n AND (n - 1)) (Suc j) \<longleftrightarrow> bit (n div 2 AND (n - 1) div 2) j"
    using drop_bit_and [of 1 n "n - 1"] by (simp add: bit_Suc drop_bit_eq_div)
  show ?case
  proof (cases "even n")
    case True
    show ?thesis
    proof (cases "n = 0")
      case True
      then show ?thesis by simp
    next
      case False
      with \<open>even n\<close> have half: "(n - 1) div 2 = n div 2 - 1" by presburger
      have low: "(\<exists>i<Suc j. bit n i) \<longleftrightarrow> (\<exists>i<j. bit (n div 2) i)"
      proof
        assume "\<exists>i<Suc j. bit n i"
        then obtain i where i: "i < Suc j" "bit n i" by blast
        with \<open>even n\<close> have "i \<noteq> 0" by (cases i) (auto simp: bit_0)
        then obtain i' where "i = Suc i'" by (cases i) auto
        with i show "\<exists>i<j. bit (n div 2) i" by (auto simp: bit_Suc)
      next
        assume "\<exists>i<j. bit (n div 2) i"
        then obtain i where "i < j" "bit (n div 2) i" by blast
        then have "Suc i < Suc j" "bit n (Suc i)" by (auto simp: bit_Suc)
        then show "\<exists>i<Suc j. bit n i" by blast
      qed
      show ?thesis
        unfolding step half low Suc.IH by (simp add: bit_Suc)
    qed
  next
    case False
    then have "(n - 1) div 2 = n div 2" by presburger
    with step False show ?thesis by (auto simp: bit_Suc bit_0)
  qed
qed

lemma word_clear_lowest:
  "bit (m AND (m - 1)) j \<longleftrightarrow> bit m j \<and> (\<exists>i<j. bit m i)" for m :: "64 word"
proof (cases "m = 0")
  case True
  then show ?thesis by simp
next
  case False
  have "bit (m AND (m - 1)) j \<longleftrightarrow> bit (unat (m AND (m - 1))) j"
    by (simp add: bit_unsigned_iff)
  also have "unat (m AND (m - 1)) = unat m AND (unat m - 1)"
    using False by (simp add: unsigned_and_eq unat_minus_one)
  also have "bit (unat m AND (unat m - 1)) j \<longleftrightarrow> bit (unat m) j \<and> (\<exists>i<j. bit (unat m) i)"
    by (rule nat_clear_lowest)
  also have "\<dots> \<longleftrightarrow> bit m j \<and> (\<exists>i<j. bit m i)"
    by (simp add: bit_unsigned_iff)
  finally show ?thesis .
qed



lemma word64_nonzero_bit:
  fixes m :: "64 word"
  assumes "m \<noteq> 0"
  shows "\<exists>j<64. bit m j"
proof (rule ccontr)
  assume "\<not> (\<exists>j<64. bit m j)"
  moreover have "j < 64" if "bit m j" for j
    using bit_imp_le_length [OF that] by simp
  ultimately have "\<not> bit m j" for j by blast
  then have "m = 0" by (simp add: bit_eq_iff)
  with assms show False by simp
qed

lemma ctzll_props:
  assumes "m \<noteq> 0"
  shows ctzll_less: "ctzll m < 64"
    and bit_ctzll: "bit m (ctzll m)"
    and ctzll_least: "i < ctzll m \<Longrightarrow> \<not> bit m i"
proof -
  let ?P = "\<lambda>k. \<not> bit m k"
  from assms obtain j where j: "j < 64" "bit m j"
    using word64_nonzero_bit by blast
  then have "j \<in> set [0..<64]" "\<not> ?P j" by simp_all
  then have "takeWhile ?P [0..<64] \<noteq> [0..<64]"
    unfolding takeWhile_eq_all_conv by blast
  then have len: "length (takeWhile ?P [0..<64]) < length [0..<64]"
    using length_takeWhile_le [of ?P "[0..<64]"] takeWhile_eq_take [of ?P "[0..<64]"]
    by (cases "length (takeWhile ?P [0..<64]) = length [0..<64]") auto
  then show lt: "ctzll m < 64" by (simp add: ctzll_def)
  from nth_length_takeWhile [OF len] lt show "bit m (ctzll m)"
    by (simp add: ctzll_def)
  show "\<not> bit m i" if "i < ctzll m"
  proof -
    from that have i: "i < length (takeWhile ?P [0..<64])" by (simp add: ctzll_def)
    then have "takeWhile ?P [0..<64] ! i \<in> set (takeWhile ?P [0..<64])" by simp
    then have "?P (takeWhile ?P [0..<64] ! i)" by (rule set_takeWhileD [THEN conjunct2])
    moreover have "takeWhile ?P [0..<64] ! i = i"
      using takeWhile_nth [OF i] that lt by simp
    ultimately show ?thesis by simp
  qed
qed

lemma set_bits_step:
  assumes "m \<noteq> 0"
  shows "filter (bit m) [0..<64] = ctzll m # filter (bit (m AND (m - 1))) [0..<64]"
proof -
  let ?k = "ctzll m"
  have k: "?k < 64" "bit m ?k" using assms by (rule ctzll_less, rule bit_ctzll)
  have least: "\<not> bit m i" if "i < ?k" for i using assms that by (rule ctzll_least)
  have split: "[0..<64] = [0..<?k] @ ?k # [Suc ?k..<64]"
    using k(1) by (metis less_imp_le_nat upt_add_eq_append upt_conv_Cons le_add_diff_inverse zero_le plus_nat.add_0)
  have below: "filter (bit m) [0..<?k] = []"
    using least by (simp add: filter_empty_conv)
  have below': "filter (bit (m AND (m - 1))) [0..<?k] = []"
    using least by (simp add: filter_empty_conv word_clear_lowest)
  have at: "\<not> bit (m AND (m - 1)) ?k"
    using least by (simp add: word_clear_lowest)
  have above: "filter (bit (m AND (m - 1))) [Suc ?k..<64] = filter (bit m) [Suc ?k..<64]"
  proof (rule filter_cong [OF refl])
    fix j assume "j \<in> set [Suc ?k..<64]"
    then have "?k < j" by simp
    with k(2) show "bit (m AND (m - 1)) j = bit m j"
      by (auto simp: word_clear_lowest)
  qed
  have "filter (bit m) [0..<64] = filter (bit m) ([0..<?k] @ ?k # [Suc ?k..<64])"
    using split by simp
  also have "\<dots> = ?k # filter (bit m) [Suc ?k..<64]"
    using below k(2) by simp
  also have "\<dots> = ?k # filter (bit (m AND (m - 1))) ([0..<?k] @ ?k # [Suc ?k..<64])"
    using below' at above by simp
  also have "\<dots> = ?k # filter (bit (m AND (m - 1))) [0..<64]"
    using split by simp
  finally show ?thesis .
qed

lemma extract_positions_eq:
  "extract_positions pos m acc = acc @ map (\<lambda>k. pos + k) (filter (bit m) [0..<64])"
proof (induction pos m acc rule: extract_positions.induct)
  case (1 pos m acc)
  show ?case
  proof (cases "m = 0")
    case True
    then show ?thesis by (subst extract_positions.simps) simp
  next
    case False
    with "1.IH" have "extract_positions pos m acc =
        (acc @ [pos + ctzll m]) @ map (\<lambda>k. pos + k) (filter (bit (m AND (m - 1))) [0..<64])"
      by (subst extract_positions.simps) simp
    also have "\<dots> = acc @ map (\<lambda>k. pos + k) (filter (bit m) [0..<64])"
      by (simp add: set_bits_step [OF False])
    finally show ?thesis .
  qed
qed

lemma scalar_loop_eq:
  "scalar_loop data d i acc = acc @ filter (\<lambda>j. data ! j = d) [i..<length data]"
proof (induction data d i acc rule: scalar_loop.induct)
  case (1 data d i acc)
  show ?case
  proof (cases "i < length data")
    case True
    with "1.IH" show ?thesis
      by (subst scalar_loop.simps) (simp add: upt_conv_Cons)
  next
    case False
    then show ?thesis by (subst scalar_loop.simps) simp
  qed
qed

lemma bit_cmpeq:
  "bit (mm512_cmpeq_epi8_mask v d) k \<longleftrightarrow> k < 64 \<and> k < length v \<and> v ! k = d"
  by (auto simp: mm512_cmpeq_epi8_mask_def bit_horner_sum_bit_word_iff)

lemma chunk_positions:
  assumes "pos + 64 \<le> length data"
  shows "map (\<lambda>k. pos + k)
           (filter (bit (mm512_cmpeq_epi8_mask (mm512_loadu_si512 data pos) d)) [0..<64])
         = filter (\<lambda>j. data ! j = d) [pos..<pos + 64]"
proof -
  have bits: "bit (mm512_cmpeq_epi8_mask (mm512_loadu_si512 data pos) d) k
      \<longleftrightarrow> data ! (pos + k) = d" if "k \<in> set [0..<64]" for k
    using that assms by (simp add: bit_cmpeq mm512_loadu_si512_def SIMD_WIDTH_def)
  have "[pos..<pos + 64] = map (\<lambda>k. pos + k) [0..<64]"
    using map_add_upt [of pos 64] by (simp add: add.commute)
  then have "filter (\<lambda>j. data ! j = d) [pos..<pos + 64]
      = map (\<lambda>k. pos + k) (filter (\<lambda>k. data ! (pos + k) = d) [0..<64])"
    by (simp add: filter_map comp_def)
  also have "filter (\<lambda>k. data ! (pos + k) = d) [0..<64]
      = filter (bit (mm512_cmpeq_epi8_mask (mm512_loadu_si512 data pos) d)) [0..<64]"
    by (rule filter_cong [OF refl]) (simp add: bits)
  finally show ?thesis by simp
qed

lemma simd_loop_eq:
  assumes "simd_end \<le> length data" and "pos \<le> simd_end" and "64 dvd (simd_end - pos)"
  shows "simd_loop data d pos simd_end acc
         = (simd_end, acc @ filter (\<lambda>j. data ! j = d) [pos..<simd_end])"
  using assms
proof (induction data d pos simd_end acc rule: simd_loop.induct)
  case (1 data d pos simd_end acc)
  show ?case
  proof (cases "pos < simd_end")
    case False
    with "1.prems" show ?thesis
      by (subst simd_loop.simps) simp
  next
    case True
    from "1.prems"(3) obtain k where k: "simd_end - pos = 64 * k" ..
    with True have "k \<noteq> 0" by (cases k) auto
    then obtain k' where "k = Suc k'" by (cases k) auto
    with k have "simd_end - (pos + 64) = 64 * k'" by simp
    with k \<open>k = Suc k'\<close> have step: "pos + 64 \<le> simd_end" "64 dvd (simd_end - (pos + 64))"
      by simp_all
    with "1.prems" have chunk: "pos + 64 \<le> length data" by simp
    have "simd_loop data d pos simd_end acc
        = simd_loop data d (pos + 64) simd_end
            (acc @ filter (\<lambda>j. data ! j = d) [pos..<pos + 64])"
      using True
      by (subst simd_loop.simps)
         (simp add: SIMD_WIDTH_def extract_positions_eq chunk_positions [OF chunk])
    also have "\<dots> = (simd_end, (acc @ filter (\<lambda>j. data ! j = d) [pos..<pos + 64])
                        @ filter (\<lambda>j. data ! j = d) [pos + 64..<simd_end])"
      using "1.IH" [OF True] "1.prems"(1) step
      by (simp add: SIMD_WIDTH_def extract_positions_eq chunk_positions [OF chunk])
    also have "[pos..<simd_end] = [pos..<pos + 64] @ [pos + 64..<simd_end]"
      using step(1) by (metis le_add1 upt_add_eq_append le_add_diff_inverse)
    then have "(acc @ filter (\<lambda>j. data ! j = d) [pos..<pos + 64])
                 @ filter (\<lambda>j. data ! j = d) [pos + 64..<simd_end]
               = acc @ filter (\<lambda>j. data ! j = d) [pos..<simd_end]"
      by simp
    finally show ?thesis .
  qed
qed

lemma find_delimiters_scalar_eq:
  "find_delimiters_scalar data d = filter (\<lambda>j. data ! j = d) [0..<length data]"
  by (simp add: find_delimiters_scalar_def scalar_loop_eq)

lemma find_delimiters_simd_eq:
  "find_delimiters_simd data d = filter (\<lambda>j. data ! j = d) [0..<length data]"
proof -
  let ?e = "length data - length data mod 64"
  have "simd_loop data d 0 ?e [] = (?e, filter (\<lambda>j. data ! j = d) [0..<?e])"
    using simd_loop_eq [of ?e data 0 d "[]"] by (simp add: dvd_minus_mod)
  then have "find_delimiters_simd data d
      = filter (\<lambda>j. data ! j = d) [0..<?e] @ filter (\<lambda>j. data ! j = d) [?e..<length data]"
    by (simp add: find_delimiters_simd_def SIMD_WIDTH_def scalar_loop_eq Let_def)
  also have "\<dots> = filter (\<lambda>j. data ! j = d) ([0..<?e] @ [?e..<length data])"
    by simp
  also have "[0..<?e] @ [?e..<length data] = [0..<length data]"
    by (metis diff_le_self le_add_diff_inverse upt_add_eq_append zero_le)
  finally show ?thesis .
qed


section \<open>Tokenization visits the non-empty pieces between delimiters\<close>

lemma delimiter_offsets_append:
  "delimiter_offsets d (xs @ ys)
   = delimiter_offsets d xs @ map (\<lambda>p. p + length xs) (delimiter_offsets d ys)"
proof -
  have "[0..<length xs + length ys] = [0..<length xs] @ map (\<lambda>p. p + length xs) [0..<length ys]"
    using upt_add_eq_append [of 0 "length xs" "length ys"]
      map_add_upt [of "length xs" "length ys"]
    by (simp add: add.commute)
  moreover have "filter (\<lambda>j. (xs @ ys) ! j = d) [0..<length xs] = filter (\<lambda>j. xs ! j = d) [0..<length xs]"
    by (rule filter_cong [OF refl]) (simp add: nth_append)
  ultimately show ?thesis
    by (simp add: delimiter_offsets_def filter_map comp_def nth_append)
qed

lemma delimiter_offsets_notin:
  "d \<notin> set s \<Longrightarrow> delimiter_offsets d s = []"
  by (auto simp: delimiter_offsets_def filter_empty_conv)

lemma delimiter_offsets_first:
  assumes "d \<notin> set a"
  shows "delimiter_offsets d (a @ d # b)
         = length a # map (\<lambda>p. p + (length a + 1)) (delimiter_offsets d b)"
proof -
  have "delimiter_offsets d (d # b) = 0 # map (\<lambda>p. p + 1) (delimiter_offsets d b)"
    using delimiter_offsets_append [of d "[d]" b] by (simp add: delimiter_offsets_def)
  then show ?thesis
    using assms by (simp add: delimiter_offsets_append delimiter_offsets_notin comp_def)
qed

lemma split_on_notin: "d \<notin> set s \<Longrightarrow> split_on d s = [s]"
  by (subst split_on.simps) simp

lemma first_delimiter_parts:
  assumes "d \<notin> set a"
  shows "takeWhile (\<lambda>c. c \<noteq> d) (a @ d # b) = a"
    and "tl (dropWhile (\<lambda>c. c \<noteq> d) (a @ d # b)) = b"
proof -
  from assms have all: "\<forall>x\<in>set a. x \<noteq> d" by auto
  then show "takeWhile (\<lambda>c. c \<noteq> d) (a @ d # b) = a"
    by (simp add: takeWhile_tail)
  from all show "tl (dropWhile (\<lambda>c. c \<noteq> d) (a @ d # b)) = b"
    by (simp add: dropWhile_append3)
qed

lemma split_on_first:
  "d \<notin> set a \<Longrightarrow> split_on d (a @ d # b) = a # split_on d b"
  by (subst split_on.simps) (simp add: first_delimiter_parts)

lemma split_on_append:
  "split_on d (a @ d # b) = split_on d a @ split_on d b"
proof (induction d a rule: split_on.induct)
  case (1 d a)
  show ?case
  proof (cases "d \<in> set a")
    case False
    then show ?thesis by (simp add: split_on_first split_on_notin)
  next
    case True
    then obtain h t where a: "a = h @ d # t" and h: "d \<notin> set h"
      by (meson split_list_first)
    have t: "tl (dropWhile (\<lambda>c. c \<noteq> d) a) = t"
      unfolding a using h by (rule first_delimiter_parts)
    have IH: "split_on d (t @ d # b) = split_on d t @ split_on d b"
      using "1.IH" [OF True] unfolding t .
    have "split_on d (a @ d # b) = split_on d (h @ d # (t @ d # b))"
      unfolding a by simp
    also have "\<dots> = h # split_on d (t @ d # b)"
      using h by (rule split_on_first)
    also have "\<dots> = (h # split_on d t) @ split_on d b"
      using IH by simp
    also have "h # split_on d t = split_on d a"
      unfolding a using h by (rule split_on_first [symmetric])
    finally show ?thesis .
  qed
qed

lemma tokenize_run:
  "tokenize_last emit (pre @ s)
     (tokenize_loop emit (pre @ s) (map (\<lambda>p. p + length pre) (delimiter_offsets d s))
        (length pre) r)
   = foldl (\<lambda>r f. emit f r) r (filter (\<lambda>f. f \<noteq> []) (split_on d s))"
proof (induction d s arbitrary: pre r rule: split_on.induct)
  case (1 d s)
  show ?case
  proof (cases "d \<in> set s")
    case False
    then show ?thesis
      by (simp add: delimiter_offsets_notin split_on_notin tokenize_last_def)
  next
    case True
    then obtain h t where s: "s = h @ d # t" and h: "d \<notin> set h"
      by (meson split_list_first)
    have t: "tl (dropWhile (\<lambda>c. c \<noteq> d) s) = t"
      unfolding s using h by (rule first_delimiter_parts)
    define pre' where "pre' = pre @ h @ [d]"
    define r' where "r' = (if h \<noteq> [] then emit h r else r)"
    have IH: "tokenize_last emit (pre' @ t)
         (tokenize_loop emit (pre' @ t) (map (\<lambda>p. p + length pre') (delimiter_offsets d t))
            (length pre') r')
        = foldl (\<lambda>r f. emit f r) r' (filter (\<lambda>f. f \<noteq> []) (split_on d t))"
      using "1.IH" [OF True, of pre' r'] unfolding t .
    have msg: "pre @ h @ d # t = pre' @ t"
      by (simp add: pre'_def)
    have offs: "map (\<lambda>p. p + length pre) (delimiter_offsets d (h @ d # t))
        = (length pre + length h) # map (\<lambda>p. p + length pre') (delimiter_offsets d t)"
    proof -
      have "(\<lambda>p. p + length pre) \<circ> (\<lambda>p. p + (length h + 1)) = (\<lambda>p. p + length pre')"
        by (auto simp: pre'_def)
      then show ?thesis
        by (simp add: delimiter_offsets_first [OF h])
    qed
    have slice: "take (length h) (drop (length pre) (pre' @ t)) = h"
      by (simp add: pre'_def)
    have len: "length pre + length h + 1 = length pre'"
      by (simp add: pre'_def)
    have "tokenize_loop emit (pre' @ t)
            ((length pre + length h) # map (\<lambda>p. p + length pre') (delimiter_offsets d t))
            (length pre) r
        = tokenize_loop emit (pre' @ t) (map (\<lambda>p. p + length pre') (delimiter_offsets d t))
            (length pre') r'"
      using slice len by (simp add: r'_def)
    then have "tokenize_last emit (pre @ s)
         (tokenize_loop emit (pre @ s) (map (\<lambda>p. p + length pre) (delimiter_offsets d s))
            (length pre) r)
        = tokenize_last emit (pre' @ t)
            (tokenize_loop emit (pre' @ t) (map (\<lambda>p. p + length pre') (delimiter_offsets d t))
               (length pre') r')"
      unfolding s offs msg by simp
    also note IH
    also have "foldl (\<lambda>r f. emit f r) r' (filter (\<lambda>f. f \<noteq> []) (split_on d t))
        = foldl (\<lambda>r f. emit f r) r (filter (\<lambda>f. f \<noteq> []) (h # split_on d t))"
      by (simp add: r'_def)
    also have "h # split_on d t = split_on d s"
      unfolding s using h by (rule split_on_first [symmetric])
    finally show ?thesis .
  qed
qed

lemma tokenize_offsets:
  "tokenize emit message (delimiter_offsets d message) r
   = foldl (\<lambda>r f. emit f r) r (filter (\<lambda>f. f \<noteq> []) (split_on d message))"
  using tokenize_run [of emit "[]" message d r] by (simp add: tokenize_def)

lemma find_delimiters_scalar_offsets:
  "find_delimiters_scalar data d = delimiter_offsets d data"
  by (simp add: find_delimiters_scalar_eq delimiter_offsets_def)

lemma find_delimiters_simd_offsets:
  "find_delimiters_simd data d = delimiter_offsets d data"
  by (simp add: find_delimiters_simd_eq delimiter_offsets_def)

lemma foldl_snoc: "foldl (\<lambda>fields field. fields @ [field]) acc xs = acc @ xs"
  by (induction xs arbitrary: acc) simp_all

lemma fields_scalar_eq: "fields_scalar message = spec_fields message"
  by (simp add: fields_scalar_def spec_fields_def find_delimiters_scalar_offsets
        tokenize_offsets foldl_snoc)

lemma fields_simd_eq: "fields_simd message = spec_fields message"
  by (simp add: fields_simd_def spec_fields_def find_delimiters_simd_offsets
        tokenize_offsets foldl_snoc)

lemma spec_fields_Nil: "spec_fields [] = []"
  by (simp add: spec_fields_def split_on_notin)

lemma validate_init: "validate FIXMessage_init = FIXMessage_init"
  by (simp add: validate_def FIXMessage_init_def)

lemma parse_scalar_fields:
  "parse_scalar fc message
   = validate (foldl (\<lambda>r f. process_field fc f r) FIXMessage_init (spec_fields message))"
proof (cases "message = []")
  case True
  then show ?thesis by (simp add: parse_scalar_def spec_fields_Nil validate_init)
next
  case False
  then show ?thesis
    by (simp add: parse_scalar_def Let_def find_delimiters_scalar_offsets
          tokenize_offsets spec_fields_def)
qed

lemma parse_simd_fields:
  "parse_simd fc message
   = validate (foldl (\<lambda>r f. process_field fc f r) FIXMessage_init (spec_fields message))"
proof (cases "message = []")
  case True
  then show ?thesis by (simp add: parse_simd_def spec_fields_Nil validate_init)
next
  case False
  then show ?thesis
    by (simp add: parse_simd_def Let_def find_delimiters_simd_offsets
          tokenize_offsets spec_fields_def)
qed

lemma process_fields_pairs:
  "foldl (\<lambda>r f. process_field fc f r) r fs
   = foldl (\<lambda>msg (tag, val). populate_message fc msg tag val) r (List.map_filter split_field fs)"
proof (induction fs arbitrary: r)
  case Nil
  show ?case by (simp add: List.map_filter_simps)
next
  case (Cons f fs)
  show ?case
    using Cons.IH by (cases "split_field f") (auto simp: List.map_filter_simps process_field_def)
qed

lemma parse_scalar_spec:
  "parse_scalar fc message = validate (spec_apply fc (spec_pairs message))"
  by (simp add: parse_scalar_fields process_fields_pairs spec_apply_def spec_pairs_def)

lemma parse_simd_spec:
  "parse_simd fc message = validate (spec_apply fc (spec_pairs message))"
  by (simp add: parse_simd_fields process_fields_pairs spec_apply_def spec_pairs_def)

lemma spec_fields_append:
  "spec_fields (a @ CHR ''|'' # b) = spec_fields a @ spec_fields b"
  by (simp add: spec_fields_def split_on_append)

lemma spec_fields_single:
  "CHR ''|'' \<notin> set f \<Longrightarrow> spec_fields f = (if f = [] then [] else [f])"
  by (simp add: spec_fields_def split_on_notin)

subsection \<open>The numeric loops as folds over the digits they read\<close>

lemma parse_int_loop_eq:
  "parse_int_loop str i result
   = foldl (\<lambda>v c. v * 10 + word_of_nat (digit_value c)) result
       (takeWhile is_digit (drop i str))"
proof (induction str i result rule: parse_int_loop.induct)
  case (1 str i result)
  show ?case
  proof (cases "i < length str")
    case False
    then show ?thesis by (subst parse_int_loop.simps) simp
  next
    case True
    then have d: "drop i str = str ! i # drop (i + 1) str"
      by (simp add: Cons_nth_drop_Suc)
    show ?thesis
    proof (cases "is_digit (str ! i)")
      case False
      with True d show ?thesis by (subst parse_int_loop.simps) simp
    next
      case digit: True
      with True "1.IH" d show ?thesis by (subst parse_int_loop.simps) simp
    qed
  qed
qed

lemma integer_part_loop_eq:
  "integer_part_loop str i x
   = (i + length (takeWhile (\<lambda>c. c \<noteq> CHR ''.'') (drop i str)),
      foldl (\<lambda>v c. if is_digit c then v * 10 + real (digit_value c) else v) x
        (takeWhile (\<lambda>c. c \<noteq> CHR ''.'') (drop i str)))"
proof (induction str i x rule: integer_part_loop.induct)
  case (1 str i x)
  show ?case
  proof (cases "i < length str")
    case False
    then show ?thesis by (subst integer_part_loop.simps) simp
  next
    case True
    then have d: "drop i str = str ! i # drop (i + 1) str"
      by (simp add: Cons_nth_drop_Suc)
    show ?thesis
    proof (cases "str ! i = CHR ''.''")
      case point: True
      with True d show ?thesis by (subst integer_part_loop.simps) simp
    next
      case False
      with True "1.IH" d show ?thesis by (subst integer_part_loop.simps) simp
    qed
  qed
qed

lemma fractional_part_loop_eq:
  "fractional_part_loop str i x dv
   = fst (foldl (\<lambda>(f, dv) c. (f + real (digit_value c) / dv, dv * 10)) (x, dv)
        (takeWhile is_digit (drop i str)))"
proof (induction str i x dv rule: fractional_part_loop.induct)
  case (1 str i x dv)
  show ?case
  proof (cases "i < length str")
    case False
    then show ?thesis by (subst fractional_part_loop.simps) simp
  next
    case True
    then have d: "drop i str = str ! i # drop (i + 1) str"
      by (simp add: Cons_nth_drop_Suc)
    show ?thesis
    proof (cases "is_digit (str ! i)")
      case False
      with True d show ?thesis by (subst fractional_part_loop.simps) simp
    next
      case digit: True
      with True "1.IH" d show ?thesis by (subst fractional_part_loop.simps) simp
    qed
  qed
qed

section \<open>What the numeric converters read\<close>

lemma from_chars_int32_no_digits:
  assumes "takeWhile is_digit (if str \<noteq> [] \<and> hd str = CHR ''-'' then tl str else str) = []"
  shows "from_chars_int32 str result = (invalid_argument, result)"
  using assms by (simp add: from_chars_int32_def Let_def)

lemma is_digit_not_special:
  "is_digit c \<Longrightarrow> c \<noteq> CHR ''='' \<and> c \<noteq> CHR ''-'' \<and> c \<noteq> CHR ''.''"
  by (auto simp: is_digit_def)

lemma takeWhile_digits_stop:
  "\<forall>c\<in>set ds. is_digit c \<Longrightarrow> \<not> is_digit x \<Longrightarrow> takeWhile is_digit (ds @ x # junk) = ds"
  by (simp add: takeWhile_tail)

lemma parse_int_digit_run:
  assumes "ds \<noteq> []" and "\<forall>c\<in>set ds. is_digit c" and "\<not> is_digit x"
  shows "parse_int (ds @ x # junk) = parse_int ds"
proof -
  from assms(1,2) have "is_digit (hd ds)" by simp
  then have hd: "hd ds \<noteq> CHR ''-''" by (simp add: is_digit_not_special)
  with assms(1) have hd': "hd (ds @ x # junk) \<noteq> CHR ''-''" "(ds @ x # junk) ! 0 \<noteq> CHR ''-''"
    "ds ! 0 \<noteq> CHR ''-''"
    by (simp_all add: hd_conv_nth nth_append)
  have run: "takeWhile is_digit (ds @ x # junk) = ds" "takeWhile is_digit ds = ds"
    using assms(2,3) by (simp_all add: takeWhile_digits_stop)
  have fc: "from_chars_int32 (ds @ x # junk) 0 = from_chars_int32 ds 0"
    using assms(1) by (simp add: from_chars_int32_def Let_def hd hd' run)
  have loop: "parse_int_loop (ds @ x # junk) 0 0 = parse_int_loop ds 0 0"
    by (simp add: parse_int_loop_eq run)
  show ?thesis
    using assms(1) hd' by (simp add: parse_int_def Let_def fc loop split: prod.splits)
qed

section \<open>Slots of the record\<close>

lemma validate_slots:
  "message_type (validate r) = message_type r" "symbol (validate r) = symbol r"
  "sender (validate r) = sender r" "target (validate r) = target r"
  "side (validate r) = side r" "price (validate r) = price r"
  "quantity (validate r) = quantity r"
  "valid (validate r) \<longleftrightarrow> message_type r \<noteq> [] \<and> symbol r \<noteq> []"
  by (simp_all add: validate_def)

lemma split_field_malformed:
  assumes "CHR ''='' \<notin> set field \<or> (field \<noteq> [] \<and> hd field = CHR ''='')"
  shows "split_field field = None"
proof (cases "CHR ''='' \<in> set field")
  case False
  then show ?thesis by (simp add: split_field_def find_char_def)
next
  case True
  with assms have "field \<noteq> []" "hd field = CHR ''=''" by auto
  then have "takeWhile (\<lambda>x. x \<noteq> CHR ''='') field = []"
    by (cases field) simp_all
  with True show ?thesis by (simp add: split_field_def find_char_def)
qed

lemma slot_kept:
  assumes other: "\<And>r t v. t \<noteq> tag \<Longrightarrow> sel (populate_message fc r t v) = sel r"
    and later: "\<forall>g\<in>set fs. \<forall>v. split_field g \<noteq> Some (tag, v)"
  shows "sel (foldl (\<lambda>r f. process_field fc f r) r fs) = sel r"
  using later
proof (induction fs arbitrary: r)
  case Nil
  show ?case by simp
next
  case (Cons g fs)
  have step: "sel (process_field fc g r) = sel r"
  proof (cases "split_field g")
    case None
    then show ?thesis by (simp add: process_field_def)
  next
    case (Some p)
    obtain t v where p: "p = (t, v)" by (cases p)
    with Some Cons.prems have "t \<noteq> tag" by auto
    with Some p show ?thesis by (simp add: process_field_def other)
  qed
  from Cons.prems have "\<forall>g\<in>set fs. \<forall>v. split_field g \<noteq> Some (tag, v)" by simp
  from Cons.IH [OF this] step show ?case by simp
qed

lemmas tag_defs = MessageType_def Symbol_def SenderCompID_def TargetCompID_def Side_def
  Price_def OrderQty_def

lemma last_field_slots:
  assumes "split_field field = Some (tag, val)"
    and "\<forall>later\<in>set after. \<forall>v. split_field later \<noteq> Some (tag, v)"
  shows "(tag = MessageType \<longrightarrow>
            message_type (foldl (\<lambda>r f. process_field fc f r) r0 (before @ field # after)) = val)
       \<and> (tag = Symbol \<longrightarrow>
            symbol (foldl (\<lambda>r f. process_field fc f r) r0 (before @ field # after)) = val)
       \<and> (tag = SenderCompID \<longrightarrow>
            sender (foldl (\<lambda>r f. process_field fc f r) r0 (before @ field # after)) = val)
       \<and> (tag = TargetCompID \<longrightarrow>
            target (foldl (\<lambda>r f. process_field fc f r) r0 (before @ field # after)) = val)
       \<and> (tag = Side \<longrightarrow>
            side (foldl (\<lambda>r f. process_field fc f r) r0 (before @ field # after))
            = parse_int val)
       \<and> (tag = Price \<longrightarrow>
            price (foldl (\<lambda>r f. process_field fc f r) r0 (before @ field # after))
            = parse_double fc val)
       \<and> (tag = OrderQty \<longrightarrow>
            quantity (foldl (\<lambda>r f. process_field fc f r) r0 (before @ field # after))
            = parse_int val)"
proof -
  define r1 where "r1 = foldl (\<lambda>r f. process_field fc f r) r0 before"
  have run: "foldl (\<lambda>r f. process_field fc f r) r0 (before @ field # after)
      = foldl (\<lambda>r f. process_field fc f r) (populate_message fc r1 tag val) after"
    using assms(1) by (simp add: r1_def process_field_def)
  have "message_type (foldl (\<lambda>r f. process_field fc f r) r after) = message_type r"
    if "tag = MessageType" for r
    using assms(2) unfolding that by (intro slot_kept) (simp_all add: populate_message_def)
  moreover have "symbol (foldl (\<lambda>r f. process_field fc f r) r after) = symbol r"
    if "tag = Symbol" for r
    using assms(2) unfolding that by (intro slot_kept) (simp_all add: populate_message_def)
  moreover have "sender (foldl (\<lambda>r f. process_field fc f r) r after) = sender r"
    if "tag = SenderCompID" for r
    using assms(2) unfolding that by (intro slot_kept) (simp_all add: populate_message_def)
  moreover have "target (foldl (\<lambda>r f. process_field fc f r) r after) = target r"
    if "tag = TargetCompID" for r
    using assms(2) unfolding that by (intro slot_kept) (simp_all add: populate_message_def)
  moreover have "side (foldl (\<lambda>r f. process_field fc f r) r after) = side r"
    if "tag = Side" for r
    using assms(2) unfolding that by (intro slot_kept) (simp_all add: populate_message_def)
  moreover have "price (foldl (\<lambda>r f. process_field fc f r) r after) = price r"
    if "tag = Price" for r
    using assms(2) unfolding that by (intro slot_kept) (simp_all add: populate_message_def)
  moreover have "quantity (foldl (\<lambda>r f. process_field fc f r) r after) = quantity r"
    if "tag = OrderQty" for r
    using assms(2) unfolding that by (intro slot_kept) (simp_all add: populate_message_def)
  ultimately show ?thesis
    unfolding run by (simp add: populate_message_def tag_defs)
qed

section \<open>Claims\<close>

text \<open>
  C1: for every input buffer and every delimiter byte the vectorized scanner
  \<^const>\<open>find_delimiters_simd\<close> returns exactly the position list of the scalar scanner
  \<^const>\<open>find_delimiters_scalar\<close>. The statement has no side condition, so it covers the
  empty buffer, buffers shorter than one 64-byte chunk, buffers of exactly one chunk and
  buffers of several chunks followed by a remainder.
\<close>

theorem scanner_equivalence:
  "find_delimiters_simd data delimiter = find_delimiters_scalar data delimiter"
  by (simp add: find_delimiters_simd_eq find_delimiters_scalar_eq)

text \<open>
  C2: for every input, the record returned by \<^const>\<open>parse_scalar\<close> and by
  \<^const>\<open>parse_simd\<close> has its \<open>valid\<close> flag true if and only if, after all key/value
  pairs of the input (\<^const>\<open>spec_pairs\<close>) have been applied in input order
  (\<^const>\<open>spec_apply\<close>), both the message-type slot and the symbol slot are non-empty;
  these two slots of the returned record are the slots so obtained.
\<close>

theorem record_validity_law:
  "(valid (parse_scalar from_chars message)
      \<longleftrightarrow> message_type (spec_apply from_chars (spec_pairs message)) \<noteq> []
          \<and> symbol (spec_apply from_chars (spec_pairs message)) \<noteq> [])
   \<and> (valid (parse_simd from_chars message)
      \<longleftrightarrow> message_type (spec_apply from_chars (spec_pairs message)) \<noteq> []
          \<and> symbol (spec_apply from_chars (spec_pairs message)) \<noteq> [])
   \<and> message_type (parse_scalar from_chars message)
       = message_type (spec_apply from_chars (spec_pairs message))
   \<and> symbol (parse_scalar from_chars message)
       = symbol (spec_apply from_chars (spec_pairs message))
   \<and> message_type (parse_simd from_chars message)
       = message_type (spec_apply from_chars (spec_pairs message))
   \<and> symbol (parse_simd from_chars message)
       = symbol (spec_apply from_chars (spec_pairs message))"
  by (simp add: parse_scalar_spec parse_simd_spec validate_slots)

theorem record_validity_law_witness:
  "valid (parse_scalar no_from_chars_double ''35=D|55=SPY|54=1|38=100|44=450.00|'')
   \<and> \<not> valid (parse_simd no_from_chars_double ''55=AAPL|54=1|'')"
proof -
  have "message_type (spec_apply no_from_chars_double
          (spec_pairs ''35=D|55=SPY|54=1|38=100|44=450.00|'')) = ''D''"
    and "symbol (spec_apply no_from_chars_double
          (spec_pairs ''35=D|55=SPY|54=1|38=100|44=450.00|'')) = ''SPY''"
    and "message_type (spec_apply no_from_chars_double (spec_pairs ''55=AAPL|54=1|'')) = []"
    by code_simp+
  then show ?thesis
    using record_validity_law [of no_from_chars_double "''35=D|55=SPY|54=1|38=100|44=450.00|''"]
      record_validity_law [of no_from_chars_double "''55=AAPL|54=1|''"]
    by simp
qed

text \<open>
  C3: the tokenization step of \<^const>\<open>parse_scalar\<close> and \<^const>\<open>parse_simd\<close> obeys
  the boundary law. For a non-empty text without delimiter the whole text is the single
  field handed on; a text beginning with a delimiter hands on the same fields as the text
  after it, and no zero-length slice is ever handed on; for a text whose part after the last
  delimiter is non-empty, that remainder is handed on as one more, last field. The fields
  are the ones the parsers process, in this order.
\<close>

theorem tokenizer_boundary_law:
  "(CHR ''|'' \<notin> set s \<and> s \<noteq> [] \<longrightarrow> fields_scalar s = [s] \<and> fields_simd s = [s])
   \<and> fields_scalar (CHR ''|'' # s) = fields_scalar s
   \<and> fields_simd (CHR ''|'' # s) = fields_simd s
   \<and> [] \<notin> set (fields_scalar s) \<and> [] \<notin> set (fields_simd s)
   \<and> (CHR ''|'' \<notin> set t \<and> t \<noteq> []
        \<longrightarrow> fields_scalar (s @ CHR ''|'' # t) = fields_scalar s @ [t]
          \<and> fields_simd (s @ CHR ''|'' # t) = fields_simd s @ [t])
   \<and> parse_scalar from_chars s
       = validate (foldl (\<lambda>result field. process_field from_chars field result)
                     FIXMessage_init (fields_scalar s))
   \<and> parse_simd from_chars s
       = validate (foldl (\<lambda>result field. process_field from_chars field result)
                     FIXMessage_init (fields_simd s))"
proof -
  have lead: "spec_fields (CHR ''|'' # s) = spec_fields s"
    using spec_fields_append [of "[]" s] by (simp add: spec_fields_Nil)
  have nonempty: "[] \<notin> set (spec_fields s)"
    by (simp add: spec_fields_def)
  show ?thesis
    by (simp add: fields_scalar_eq fields_simd_eq spec_fields_single spec_fields_append
          lead nonempty parse_scalar_fields parse_simd_fields)
qed

theorem tokenizer_boundary_law_witness:
  "fields_scalar ''35=D'' = [''35=D''] \<and> fields_simd ''35=D'' = [''35=D'']
   \<and> fields_scalar ''|35=D'' = [''35=D'']
   \<and> fields_scalar ''35=D|55=SPY'' = [''35=D'', ''55=SPY'']
   \<and> fields_simd ''35=D|55=SPY'' = [''35=D'', ''55=SPY'']"
  using tokenizer_boundary_law [of "''35=D''" "''55=SPY''" no_from_chars_double]
  by simp

text \<open>
  C4: a field that contains no \<open>=\<close> byte, or whose first byte is \<open>=\<close>, is silently
  dropped: \<^const>\<open>split_field\<close> rejects it, the record is left as it was, there is no
  error value, and the parse of an input containing the field (in the middle, at the start
  or at the end) is the parse of the input without it. For \<open>35D|55=AAPL|\<close> the symbol
  is \<open>AAPL\<close>, the message type stays empty and the record is invalid.
\<close>

theorem malformed_field_dropped:
  assumes "CHR ''='' \<notin> set field \<or> (field \<noteq> [] \<and> hd field = CHR ''='')"
    and "CHR ''|'' \<notin> set field"
  shows "split_field field = None
     \<and> process_field from_chars field result = result
     \<and> parse_scalar from_chars (before @ CHR ''|'' # field @ CHR ''|'' # rest)
        = parse_scalar from_chars (before @ CHR ''|'' # rest)
     \<and> parse_simd from_chars (before @ CHR ''|'' # field @ CHR ''|'' # rest)
        = parse_simd from_chars (before @ CHR ''|'' # rest)
     \<and> parse_scalar from_chars (field @ CHR ''|'' # rest) = parse_scalar from_chars rest
     \<and> parse_simd from_chars (field @ CHR ''|'' # rest) = parse_simd from_chars rest
     \<and> parse_scalar from_chars (before @ CHR ''|'' # field) = parse_scalar from_chars before
     \<and> parse_simd from_chars (before @ CHR ''|'' # field) = parse_simd from_chars before"
proof -
  have none: "split_field field = None"
    using assms(1) by (rule split_field_malformed)
  then have skip: "process_field from_chars field r = r" for r
    by (simp add: process_field_def)
  have fold_skip: "foldl (\<lambda>r f. process_field from_chars f r) r (spec_fields field) = r" for r
    using assms(2) skip by (simp add: spec_fields_single)
  have mid: "spec_fields (before @ CHR ''|'' # field @ CHR ''|'' # rest)
      = spec_fields before @ spec_fields field @ spec_fields rest"
    by (simp add: spec_fields_append)
  show ?thesis
    by (simp add: none skip parse_scalar_fields parse_simd_fields mid spec_fields_append
          fold_skip)
qed

theorem malformed_field_dropped_witness:
  "symbol (parse_scalar no_from_chars_double ''35D|55=AAPL|'') = ''AAPL''
   \<and> message_type (parse_scalar no_from_chars_double ''35D|55=AAPL|'') = []
   \<and> \<not> valid (parse_scalar no_from_chars_double ''35D|55=AAPL|'')
   \<and> symbol (parse_simd no_from_chars_double ''35D|55=AAPL|'') = ''AAPL''
   \<and> message_type (parse_simd no_from_chars_double ''35D|55=AAPL|'') = []
   \<and> \<not> valid (parse_simd no_from_chars_double ''35D|55=AAPL|'')"
proof -
  have "parse_scalar no_from_chars_double ''55=AAPL|'' = FIXMessage_init\<lparr>symbol := ''AAPL''\<rparr>"
    and "parse_simd no_from_chars_double ''55=AAPL|'' = FIXMessage_init\<lparr>symbol := ''AAPL''\<rparr>"
    by code_simp+
  then show ?thesis
    using malformed_field_dropped [of "''35D''" no_from_chars_double _ _ "''55=AAPL|''"]
    by (simp add: FIXMessage_init_def)
qed

text \<open>
  C5: last write wins. When the last field of the input that carries a recognized key
  carries the value \<open>val\<close> (no later field has the same key), the slot of that key in
  the record returned by \<^const>\<open>parse_scalar\<close> and \<^const>\<open>parse_simd\<close> holds \<open>val\<close>
  (converted by \<^const>\<open>parse_int\<close> or \<^const>\<open>parse_double\<close> for the numeric slots),
  whatever earlier fields with that key carried. Parsing \<open>35=D|55=FIRST|55=SECOND|\<close>
  yields the symbol \<open>SECOND\<close>.
\<close>

theorem last_write_wins:
  assumes "fields_scalar message = before @ field # after"
    and "split_field field = Some (tag, val)"
    and "\<forall>later\<in>set after. \<forall>v. split_field later \<noteq> Some (tag, v)"
  shows "(tag = MessageType \<longrightarrow> message_type (parse_scalar from_chars message) = val
                              \<and> message_type (parse_simd from_chars message) = val)
       \<and> (tag = Symbol \<longrightarrow> symbol (parse_scalar from_chars message) = val
                          \<and> symbol (parse_simd from_chars message) = val)
       \<and> (tag = SenderCompID \<longrightarrow> sender (parse_scalar from_chars message) = val
                                \<and> sender (parse_simd from_chars message) = val)
       \<and> (tag = TargetCompID \<longrightarrow> target (parse_scalar from_chars message) = val
                                \<and> target (parse_simd from_chars message) = val)
       \<and> (tag = Side \<longrightarrow> side (parse_scalar from_chars message) = parse_int val
                        \<and> side (parse_simd from_chars message) = parse_int val)
       \<and> (tag = Price \<longrightarrow> price (parse_scalar from_chars message) = parse_double from_chars val
                         \<and> price (parse_simd from_chars message) = parse_double from_chars val)
       \<and> (tag = OrderQty \<longrightarrow> quantity (parse_scalar from_chars message) = parse_int val
                            \<and> quantity (parse_simd from_chars message) = parse_int val)"
proof -
  from assms(1) have fields: "spec_fields message = before @ field # after"
    by (simp add: fields_scalar_eq)
  show ?thesis
    using last_field_slots [OF assms(2,3), of from_chars FIXMessage_init before]
    by (simp add: parse_scalar_fields parse_simd_fields fields validate_slots)
qed

theorem last_write_wins_witness:
  "symbol (parse_scalar no_from_chars_double ''35=D|55=FIRST|55=SECOND|'') = ''SECOND''
   \<and> symbol (parse_simd no_from_chars_double ''35=D|55=FIRST|55=SECOND|'') = ''SECOND''
   \<and> symbol (parse_scalar no_from_chars_double ''55=FIRST|55=SECOND|54=1'') = ''SECOND''"
proof -
  have f: "fields_scalar ''35=D|55=FIRST|55=SECOND|''
      = [''35=D'', ''55=FIRST''] @ ''55=SECOND'' # []"
    and g: "fields_scalar ''55=FIRST|55=SECOND|54=1'' = [''55=FIRST''] @ ''55=SECOND'' # [''54=1'']"
    by code_simp+
  have s: "split_field ''55=SECOND'' = Some (Symbol, ''SECOND'')"
    by code_simp
  have l: "\<forall>later\<in>set []. \<forall>v. split_field later \<noteq> Some (Symbol, v)"
    by simp
  have "split_field ''54=1'' = Some (Side, ''1'')"
    by code_simp
  then have m: "\<forall>later\<in>set [''54=1'']. \<forall>v. split_field later \<noteq> Some (Symbol, v)"
    by (simp add: Side_def Symbol_def)
  show ?thesis
    using last_write_wins [OF f s l, of no_from_chars_double]
      last_write_wins [OF g s m, of no_from_chars_double]
    by simp
qed

text \<open>
  C6: \<^const>\<open>parse_double\<close> does not support exponential notation; for input in scientific
  notation such as \<open>1e5\<close> it is to return a partial or zero result derived from the
  leading non-exponent content, and it never fails. On the fallback path (the build
  without the library conversion) the code does not do this: the integer-part loop has no
  \<^verbatim>\<open>break\<close>, steps over the \<open>e\<close> and goes on accumulating the exponent digits, so
  \<open>1e5\<close> gives \<open>15\<close> and \<open>2e3\<close> gives \<open>23\<close>, neither zero nor the value of the leading
  content (\<open>1\<close> and \<open>2\<close>). The sibling loops stop at the first non-digit: the
  fractional-part loop of the same function gives \<open>1.5\<close> for \<open>1.5e3\<close>, and
  \<^const>\<open>parse_int\<close> gives \<open>1\<close> for \<open>1e5\<close>. The arithmetic involved is on small integers
  and one half, exact in binary floating point.
\<close>

theorem parse_double_fallback_steps_over_exponent:
  "parse_double no_from_chars_double ''1e5'' = 15
   \<and> parse_double no_from_chars_double ''1'' = 1
   \<and> parse_double no_from_chars_double ''1e5'' \<noteq> 0
   \<and> parse_double no_from_chars_double ''1e5'' \<noteq> parse_double no_from_chars_double ''1''
   \<and> parse_double no_from_chars_double ''2e3'' = 23
   \<and> parse_double no_from_chars_double ''1.5e3'' = 3 / 2
   \<and> parse_int ''1e5'' = 1"
proof -
  have int: "parse_int ''1e5'' = 1"
    by code_simp
  have "parse_double no_from_chars_double ''1e5'' = 15"
    and "parse_double no_from_chars_double ''1'' = 1"
    and "parse_double no_from_chars_double ''2e3'' = 23"
    and "parse_double no_from_chars_double ''1.5e3'' = 3 / 2"
    by (simp_all add: parse_double_def no_from_chars_double_def parse_double_manual_def
          integer_part_loop.simps fractional_part_loop.simps is_digit_def digit_value_def)
  with int show ?thesis
    by simp
qed

text \<open>
  C7: \<^const>\<open>parse_int\<close> returns zero for every input without valid leading digits, that
  is, whenever the text after an optional leading minus sign is empty or starts with a
  byte that is not a decimal digit. This covers the empty string, a lone minus sign and
  any unparseable leading content.
\<close>

theorem parse_int_no_digits_zero:
  assumes "takeWhile is_digit (if str \<noteq> [] \<and> hd str = CHR ''-'' then tl str else str) = []"
  shows "parse_int str = 0"
proof -
  have fc: "from_chars_int32 str 0 = (invalid_argument, 0)"
    using assms by (rule from_chars_int32_no_digits)
  show ?thesis
  proof (cases str)
    case Nil
    then show ?thesis
      unfolding parse_int_def fc by (simp add: parse_int_loop_eq)
  next
    case (Cons c cs)
    show ?thesis
    proof (cases "c = CHR ''-''")
      case True
      with Cons assms have "takeWhile is_digit cs = []" by simp
      with True Cons show ?thesis
        unfolding parse_int_def fc by (simp add: parse_int_loop_eq)
    next
      case False
      with Cons assms have "takeWhile is_digit (c # cs) = []" by simp
      with False Cons show ?thesis
        unfolding parse_int_def fc by (simp add: parse_int_loop_eq)
    qed
  qed
qed

theorem parse_int_no_digits_zero_witness:
  "parse_int [] = 0 \<and> parse_int ''-'' = 0 \<and> parse_int ''abc'' = 0 \<and> parse_int ''-x1'' = 0
   \<and> parse_int ''+5'' = 0"
  using parse_int_no_digits_zero [of "[]"] parse_int_no_digits_zero [of "''-''"]
    parse_int_no_digits_zero [of "''abc''"] parse_int_no_digits_zero [of "''-x1''"]
    parse_int_no_digits_zero [of "''+5''"]
  by (simp add: is_digit_def)

text \<open>
  C8: for the empty input buffer \<^const>\<open>parse_scalar\<close> and \<^const>\<open>parse_simd\<close> return
  the default record: \<open>valid\<close> is false, the four text slots are empty, and side,
  quantity and price are zero.
\<close>

theorem empty_input_default_record:
  "parse_scalar from_chars [] = FIXMessage_init
   \<and> parse_simd from_chars [] = FIXMessage_init
   \<and> \<not> valid (parse_scalar from_chars []) \<and> \<not> valid (parse_simd from_chars [])
   \<and> message_type (parse_scalar from_chars []) = [] \<and> message_type (parse_simd from_chars []) = []
   \<and> symbol (parse_scalar from_chars []) = [] \<and> symbol (parse_simd from_chars []) = []
   \<and> sender (parse_scalar from_chars []) = [] \<and> sender (parse_simd from_chars []) = []
   \<and> target (parse_scalar from_chars []) = [] \<and> target (parse_simd from_chars []) = []
   \<and> side (parse_scalar from_chars []) = 0 \<and> side (parse_simd from_chars []) = 0
   \<and> quantity (parse_scalar from_chars []) = 0 \<and> quantity (parse_simd from_chars []) = 0
   \<and> price (parse_scalar from_chars []) = 0 \<and> price (parse_simd from_chars []) = 0"
  by (simp add: parse_scalar_def parse_simd_def FIXMessage_init_def)

theorem empty_input_default_record_witness:
  "parse_scalar no_from_chars_double [] = FIXMessage_init
   \<and> parse_simd no_from_chars_double [] = FIXMessage_init
   \<and> \<not> valid (parse_scalar no_from_chars_double [])
   \<and> price (parse_simd no_from_chars_double []) = 0"
  using empty_input_default_record [of no_from_chars_double] by blast

text \<open>
  C9: the position list returned by either scanner is strictly ascending, and every
  position in it is an in-bounds index of the input (strictly below its length).
\<close>

theorem scanner_positions_ascending_in_bounds:
  "sorted_wrt (<) (find_delimiters_scalar data delimiter)
   \<and> set (find_delimiters_scalar data delimiter) \<subseteq> {..<length data}
   \<and> sorted_wrt (<) (find_delimiters_simd data delimiter)
   \<and> set (find_delimiters_simd data delimiter) \<subseteq> {..<length data}"
  by (auto simp: find_delimiters_simd_eq find_delimiters_scalar_eq sorted_wrt_filter)

text \<open>
  C10: a field whose key text is a non-empty run of digits followed by other bytes (none of
  them \<open>=\<close>) is not rejected: \<^const>\<open>parse_int\<close> reads the digit run and stops at the
  first non-digit, so \<^const>\<open>split_field\<close> yields the key of the digit run and the field
  updates the record exactly as the field without the trailing bytes does. For instance
  \<open>35x=D\<close> sets the message type to \<open>D\<close>.
\<close>

theorem key_digits_then_junk:
  assumes "ds \<noteq> []" and "\<forall>c\<in>set ds. is_digit c" and "\<not> is_digit x"
    and "CHR ''='' \<notin> set (x # junk)"
  shows "parse_int (ds @ x # junk) = parse_int ds
     \<and> split_field (ds @ x # junk @ CHR ''='' # val) = Some (parse_int ds, val)
     \<and> split_field (ds @ CHR ''='' # val) = Some (parse_int ds, val)
     \<and> process_field from_chars (ds @ x # junk @ CHR ''='' # val) result
        = process_field from_chars (ds @ CHR ''='' # val) result"
proof -
  have key: "parse_int (ds @ x # junk) = parse_int ds"
    using assms(1-3) by (rule parse_int_digit_run)
  from assms(2) have noeq: "CHR ''='' \<notin> set ds"
    using is_digit_not_special by blast
  with assms(4) have noeq': "CHR ''='' \<notin> set (ds @ x # junk)" by simp
  have tw1: "takeWhile (\<lambda>c. c \<noteq> CHR ''='') ((ds @ x # junk) @ CHR ''='' # val) = ds @ x # junk"
    using noeq' by (rule first_delimiter_parts)
  have tw2: "takeWhile (\<lambda>c. c \<noteq> CHR ''='') (ds @ CHR ''='' # val) = ds"
    using noeq by (rule first_delimiter_parts)
  have s1: "split_field ((ds @ x # junk) @ CHR ''='' # val) = Some (parse_int ds, val)"
    unfolding split_field_def find_char_def tw1 using key by simp
  have s2: "split_field (ds @ CHR ''='' # val) = Some (parse_int ds, val)"
    unfolding split_field_def find_char_def tw2 using assms(1) by simp
  from s1 have s1': "split_field (ds @ x # junk @ CHR ''='' # val) = Some (parse_int ds, val)"
    by simp
  show ?thesis
    using key s1' s2 by (simp add: process_field_def)
qed

theorem key_digits_then_junk_witness:
  "split_field ''35x=D'' = Some (35, ''D'')
   \<and> process_field no_from_chars_double ''35x=D'' FIXMessage_init
     = process_field no_from_chars_double ''35=D'' FIXMessage_init
   \<and> message_type (process_field no_from_chars_double ''35x=D'' FIXMessage_init) = ''D''"
proof -
  have p: "parse_int ''35'' = 35" by code_simp
  have m: "message_type (process_field no_from_chars_double ''35=D'' FIXMessage_init) = ''D''"
    by code_simp
  show ?thesis
    using key_digits_then_junk [of "''35''" "CHR ''x''" "[]" "''D''" no_from_chars_double FIXMessage_init] p m
    by (simp add: is_digit_def)
qed

end
